theory Spec2Isabelle
  imports Main
begin

section \<open>The host: what the scanner asks of the operating system and of PyMuPDF\<close>

text \<open>
  The scanner of \<^verbatim>\<open>pdf_processor_v6.py\<close> reads the file system (\<^verbatim>\<open>Path.stat\<close>), opens
  documents with \<^verbatim>\<open>fitz.open\<close>, and normalises paths with \<^verbatim>\<open>pathlib\<close> and
  \<^verbatim>\<open>os.path.normcase\<close>. These library calls are parameters of the model, collected in a
  record. A call that raises is the value \<open>Inl msg\<close>, with \<open>msg\<close> what \<^verbatim>\<open>str(e)\<close> gives.

  A string is the list of the bytes of its UTF-8 encoding. A byte of a file name that is
  not UTF-8, which Python keeps in the string as a surrogate escape, stands for itself.
\<close>

type_synonym path = string

record document =
  doc_is_encrypted :: bool
  doc_page_count :: "string + int"

record host =
  stat_size :: "path \<Rightarrow> string + int"
  fitz_open :: "path \<Rightarrow> string + document"
  path_str :: "string \<Rightarrow> path"
  normcase :: "string \<Rightarrow> string"
  windows :: bool
  find_stdout :: "path \<Rightarrow> string list \<times> bool"
  rglob :: "path \<Rightarrow> path list"

text \<open>
  \<open>path_str h s\<close> is \<^verbatim>\<open>str(Path(s))\<close>; \<open>find_stdout h root\<close> is the list of lines read from
  the pipe of \<^verbatim>\<open>find root -type f -iname *.pdf\<close>, with \<open>True\<close> when starting the process or
  reading the pipe raises after these lines; \<open>rglob h root\<close> lists \<^verbatim>\<open>str(p)\<close> for the paths
  \<^verbatim>\<open>Path(root).rglob("*.[pP][dD][fF]")\<close> yields.
\<close>

section \<open>The inspector: \<^verbatim>\<open>process_single_pdf\<close>\<close>

definition PAGE_COUNT_THRESHOLD :: int where
  "PAGE_COUNT_THRESHOLD = 100"

definition FILE_SIZE_THRESHOLD_BYTES :: int where
  "FILE_SIZE_THRESHOLD_BYTES = 10 * 1024 * 1024"

text \<open>
  The result dictionary. In version 6 the time measurement is commented out, so
  \<^verbatim>\<open>processing_time\<close> is the float \<^verbatim>\<open>0.0\<close> in every result; the record keeps its printed form.
\<close>

record info =
  file_path :: string
  file_size_bytes :: int
  can_open :: bool
  page_count :: int
  processing_time :: string
  error_message :: string
  category :: string

text \<open>The calls the inspector makes on the host, in order.\<close>

datatype call = Stat path | Open_doc path | Close_doc

definition initial_info :: "path \<Rightarrow> info" where
  "initial_info p =
     \<lparr>file_path = p, file_size_bytes = 0, can_open = False, page_count = 0,
      processing_time = ''0.0'', error_message = '''', category = ''N/A''\<rparr>"

text \<open>
  Every exit of the \<^verbatim>\<open>try\<close> block is a branch: the early return of a small file, the
  handler \<^verbatim>\<open>except Exception\<close> (which stores \<^verbatim>\<open>str(e)\<close> in what the dictionary holds at
  that moment), and the normal end. Leaving the \<^verbatim>\<open>with\<close> block closes the document.
\<close>

definition process_single_pdf :: "host \<Rightarrow> string \<Rightarrow> info \<times> call list" where
  "process_single_pdf h pdf_path_str =
     (let pdf_path = path_str h pdf_path_str;
          info0 = initial_info pdf_path
      in case stat_size h pdf_path of
           Inl e \<Rightarrow> (info0\<lparr>error_message := e\<rparr>, [Stat pdf_path])
         | Inr sz \<Rightarrow>
             (let info1 = info0\<lparr>file_size_bytes := sz\<rparr> in
              if sz < 100 then (info1\<lparr>error_message := ''too small''\<rparr>, [Stat pdf_path])
              else
                (case fitz_open h pdf_path of
                   Inl e \<Rightarrow> (info1\<lparr>error_message := e\<rparr>, [Stat pdf_path, Open_doc pdf_path])
                 | Inr doc \<Rightarrow>
                     if doc_is_encrypted doc
                     then (info1\<lparr>error_message := ''encrypted''\<rparr>,
                           [Stat pdf_path, Open_doc pdf_path, Close_doc])
                     else
                       (case doc_page_count doc of
                          Inl e \<Rightarrow> (info1\<lparr>error_message := e\<rparr>,
                                    [Stat pdf_path, Open_doc pdf_path, Close_doc])
                        | Inr n \<Rightarrow>
                            (let info2 = info1\<lparr>page_count := n, can_open := True\<rparr>;
                                 page_cat = (if page_count info2 > PAGE_COUNT_THRESHOLD
                                             then ''L'' else ''S'');
                                 size_cat = (if sz > FILE_SIZE_THRESHOLD_BYTES
                                             then ''L'' else ''S'')
                             in (info2\<lparr>category := page_cat @ ''-'' @ size_cat\<rparr>,
                                 [Stat pdf_path, Open_doc pdf_path, Close_doc]))))))"

text \<open>The result record alone, and the calls alone.\<close>

definition inspect :: "host \<Rightarrow> string \<Rightarrow> info" where
  "inspect h p = fst (process_single_pdf h p)"

definition inspect_calls :: "host \<Rightarrow> string \<Rightarrow> call list" where
  "inspect_calls h p = snd (process_single_pdf h p)"

text \<open>A host that knows one file, for evaluating the inspector.\<close>

definition one_file_host :: "(string + int) \<Rightarrow> (string + document) \<Rightarrow> host" where
  "one_file_host st opn =
     \<lparr>stat_size = (\<lambda>_. st), fitz_open = (\<lambda>_. opn), path_str = (\<lambda>s. s),
      normcase = (\<lambda>s. s), windows = False, find_stdout = (\<lambda>_. ([], False)),
      rglob = (\<lambda>_. [])\<rparr>"

definition plain_doc :: "int \<Rightarrow> document" where
  "plain_doc n = \<lparr>doc_is_encrypted = False, doc_page_count = Inr n\<rparr>"

section \<open>The report: rows of the CSV artifact\<close>

text \<open>
  The artifact is modelled at the level of the \<^verbatim>\<open>csv\<close> module: a file is the sequence of
  records its reader delivers; \<open>None\<close> is the file that does not exist. A record is a row
  of fields, or the place where the reader raises, with the message of the exception. For
  a record the parser refuses (a \<^verbatim>\<open>csv.Error\<close>, as for a field over the size limit) that
  place is the record. For bytes that are not UTF-8 the reader raises when it decodes the
  block of 8192 bytes that holds them: the place is the first record which that block is
  needed for, and it can lie before rows that precede the bytes in the file.
\<close>

datatype csv_line = Row "string list" | Raises string

type_synonym artifact = "csv_line list option"

definition header :: "string list" where
  "header = [''file_path'', ''file_size_bytes'', ''can_open'', ''page_count'',
             ''processing_time'', ''error_message'', ''category'']"

fun digits :: "nat \<Rightarrow> string" where
  "digits n = (if n < 10 then [''0123456789'' ! n]
               else digits (n div 10) @ [''0123456789'' ! (n mod 10)])"

definition str_int :: "int \<Rightarrow> string" where
  "str_int i = (if i < 0 then CHR ''-'' # digits (nat (- i)) else digits (nat i))"

definition str_bool :: "bool \<Rightarrow> string" where
  "str_bool b = (if b then ''True'' else ''False'')"

text \<open>The list \<^verbatim>\<open>csv_writer_thread\<close> hands to \<^verbatim>\<open>writer.writerow\<close> for one result.\<close>

definition row_of :: "info \<Rightarrow> string list" where
  "row_of row = [file_path row, str_int (file_size_bytes row), str_bool (can_open row),
                 str_int (page_count row), processing_time row, error_message row,
                 category row]"

section \<open>The ledger: \<^verbatim>\<open>load_processed_csv\<close>\<close>

text \<open>
  \<^verbatim>\<open>csv.DictReader\<close> takes the first record as the field names, skips empty rows, and
  pairs names with fields by \<^verbatim>\<open>dict(zip(fieldnames, row))\<close>: of a repeated name the last
  field counts. On a row shorter than the field names, every name past the end of the row
  is then set to \<^verbatim>\<open>None\<close>, also a name that an earlier field had given a value.
\<close>

definition dict_get :: "string list \<Rightarrow> string list \<Rightarrow> string \<Rightarrow> string option" where
  "dict_get fieldnames row key =
     (if key \<in> set (drop (length row) fieldnames) then None
      else map_of (rev (zip fieldnames row)) key)"

text \<open>
  The loop \<^verbatim>\<open>for row in reader\<close>: the set collected so far, and the message of the
  exception that ended the loop, if one did.
\<close>

fun load_rows ::
  "(string \<Rightarrow> string) \<Rightarrow> string list \<Rightarrow> csv_line list \<Rightarrow> string set \<Rightarrow> string set \<times> string option"
where
  "load_rows nc fieldnames [] processed = (processed, None)"
| "load_rows nc fieldnames (Raises e # rest) processed = (processed, Some e)"
| "load_rows nc fieldnames (Row r # rest) processed =
     (if r = [] then load_rows nc fieldnames rest processed
      else (case dict_get fieldnames r ''file_path'' of
              None \<Rightarrow> load_rows nc fieldnames rest processed
            | Some p \<Rightarrow>
                if p = [] then load_rows nc fieldnames rest processed
                else load_rows nc fieldnames rest (insert (nc p) processed)))"

datatype log_event = Info_loaded nat | Warning_load_failed string

text \<open>The records a reader gets through, and the message of the first that raises.\<close>

fun is_row :: "csv_line \<Rightarrow> bool" where
  "is_row (Row r) = True"
| "is_row (Raises e) = False"


definition load_processed_csv :: "host \<Rightarrow> artifact \<Rightarrow> string set \<times> log_event list" where
  "load_processed_csv h csv_file =
     (case csv_file of
        None \<Rightarrow> ({}, [])
      | Some [] \<Rightarrow> ({}, [Info_loaded 0])
      | Some (Raises e # rest) \<Rightarrow> ({}, [Warning_load_failed e])
      | Some (Row fieldnames # rest) \<Rightarrow>
          (case load_rows (normcase h) fieldnames rest {} of
             (processed, None) \<Rightarrow> (processed, [Info_loaded (card processed)])
           | (processed, Some e) \<Rightarrow> (processed, [Warning_load_failed e])))"

section \<open>The discoverer: \<^verbatim>\<open>find_pdf_files\<close>\<close>

text \<open>
  \<^verbatim>\<open>str.strip()\<close> removes the white space of Unicode from both ends. These are the
  encodings of its characters: the ASCII ones, U+0085, U+00A0, U+1680, U+2000 to U+200A,
  U+2028, U+2029, U+202F, U+205F and U+3000.
\<close>

definition whitespace :: "string list" where
  "whitespace =
     [[CHR 0x09], [CHR 0x0A], [CHR 0x0B], [CHR 0x0C], [CHR 0x0D],
      [CHR 0x1C], [CHR 0x1D], [CHR 0x1E], [CHR 0x1F], [CHR 0x20],
      [CHR 0xC2, CHR 0x85], [CHR 0xC2, CHR 0xA0], [CHR 0xE1, CHR 0x9A, CHR 0x80],
      [CHR 0xE2, CHR 0x80, CHR 0x80], [CHR 0xE2, CHR 0x80, CHR 0x81],
      [CHR 0xE2, CHR 0x80, CHR 0x82], [CHR 0xE2, CHR 0x80, CHR 0x83],
      [CHR 0xE2, CHR 0x80, CHR 0x84], [CHR 0xE2, CHR 0x80, CHR 0x85],
      [CHR 0xE2, CHR 0x80, CHR 0x86], [CHR 0xE2, CHR 0x80, CHR 0x87],
      [CHR 0xE2, CHR 0x80, CHR 0x88], [CHR 0xE2, CHR 0x80, CHR 0x89],
      [CHR 0xE2, CHR 0x80, CHR 0x8A], [CHR 0xE2, CHR 0x80, CHR 0xA8],
      [CHR 0xE2, CHR 0x80, CHR 0xA9], [CHR 0xE2, CHR 0x80, CHR 0xAF],
      [CHR 0xE2, CHR 0x81, CHR 0x9F], [CHR 0xE3, CHR 0x80, CHR 0x80]]"

text \<open>
  The number of bytes of the character of \<open>ws\<close> that \<open>s\<close> begins with, or 0; and \<open>s\<close>
  without the characters of \<open>ws\<close> it begins with.
\<close>

definition leading :: "string list \<Rightarrow> string \<Rightarrow> nat" where
  "leading ws s =
     (case find (\<lambda>w. w \<noteq> [] \<and> take (length w) s = w) ws of
        None \<Rightarrow> 0
      | Some w \<Rightarrow> length w)"

function lstrip :: "string list \<Rightarrow> string \<Rightarrow> string" where
  "lstrip ws s = (if leading ws s = 0 then s else lstrip ws (drop (leading ws s) s))"
  by pat_completeness auto
termination
proof (relation "measure (\<lambda>(ws, s). length s)")
  show "wf (measure (\<lambda>(ws, s). length s))" by simp
next
  fix ws :: "string list" and s :: string
  assume "leading ws s \<noteq> 0"
  then obtain w where "w \<noteq> []" "take (length w) s = w"
    by (auto simp: leading_def find_Some_iff split: option.splits)
  then have "s \<noteq> []" by auto
  with \<open>leading ws s \<noteq> 0\<close> show "((ws, drop (leading ws s) s), (ws, s)) \<in> measure (\<lambda>(ws, s). length s)"
    by simp
qed

text \<open>At the end of a string the characters are found on the reversed bytes.\<close>

definition strip :: "string \<Rightarrow> string" where
  "strip s = rev (lstrip (map rev whitespace) (rev (lstrip whitespace s)))"

text \<open>
  The two loops of the generator, with the set \<^verbatim>\<open>seen\<close> passed along: the paths yielded
  and the set at the end. The generator is lazy; the list is what it yields when drained.
\<close>

fun find_loop ::
  "(string \<Rightarrow> string) \<Rightarrow> string list \<Rightarrow> string set \<Rightarrow> path list \<times> string set"
where
  "find_loop nc [] seen = ([], seen)"
| "find_loop nc (line # rest) seen =
     (if strip line = [] then find_loop nc rest seen
      else if nc (strip line) \<in> seen then find_loop nc rest seen
      else (case find_loop nc rest (insert (nc (strip line)) seen) of
              (out, seen') \<Rightarrow> (strip line # out, seen')))"

fun rglob_loop ::
  "(string \<Rightarrow> string) \<Rightarrow> path list \<Rightarrow> string set \<Rightarrow> path list \<times> string set"
where
  "rglob_loop nc [] seen = ([], seen)"
| "rglob_loop nc (pdf_path # rest) seen =
     (if nc pdf_path \<in> seen then rglob_loop nc rest seen
      else (case rglob_loop nc rest (insert (nc pdf_path) seen) of
              (out, seen') \<Rightarrow> (pdf_path # out, seen')))"

definition find_pdf_files :: "host \<Rightarrow> string \<Rightarrow> path list" where
  "find_pdf_files h root_path =
     (let root = path_str h root_path in
      if windows h then fst (rglob_loop (normcase h) (rglob h root) {})
      else (case find_stdout h root of
              (lines, raised) \<Rightarrow>
                (case find_loop (normcase h) lines {} of
                   (out, seen) \<Rightarrow>
                     if raised then out @ fst (rglob_loop (normcase h) (rglob h root) seen)
                     else out)))"

section \<open>The writer thread and the file it appends to\<close>

text \<open>
  What the writer thread does, as the sequence of its operations on the queue and on the
  file object. \<open>Flush_file\<close> is part of the file interface; whether the writer uses it is a
  property of the sequence. The queue is the list of items the main thread puts, in order
  (one producer, one consumer, first in first out); an item is a batch or the sentinel
  \<^verbatim>\<open>None\<close>. On a queue that holds no sentinel the thread ends blocked in \<^verbatim>\<open>queue.get\<close>.
\<close>

datatype io = Open_append | Write_row "string list" | Flush_file | Close_file
  | Queue_get | Task_done

text \<open>
  The file is opened with \<^verbatim>\<open>encoding='utf-8'\<close>: \<^verbatim>\<open>writer.writerow\<close> raises on a row with a
  field that is not UTF-8 (a path with a surrogate escape), before anything of the row is
  written. The exception leaves the \<^verbatim>\<open>with\<close> block, which closes the file, and ends the
  thread; the main thread goes on and finds the thread ended when it joins it.
\<close>

definition continuation :: "nat \<Rightarrow> bool" where
  "continuation b = (0x80 \<le> b \<and> b \<le> 0xBF)"

fun utf8 :: "nat list \<Rightarrow> bool" where
  "utf8 [] = True"
| "utf8 (b # bs) =
     (if b < 0x80 then utf8 bs
      else if 0xC2 \<le> b \<and> b \<le> 0xDF
        then (case bs of c # r \<Rightarrow> continuation c \<and> utf8 r | _ \<Rightarrow> False)
      else if 0xE0 \<le> b \<and> b \<le> 0xEF
        then (case bs of
                c # d # r \<Rightarrow>
                  (if b = 0xE0 then 0xA0 \<le> c \<and> c \<le> 0xBF
                   else if b = 0xED then 0x80 \<le> c \<and> c \<le> 0x9F
                   else continuation c) \<and>
                  continuation d \<and> utf8 r
              | _ \<Rightarrow> False)
      else if 0xF0 \<le> b \<and> b \<le> 0xF4
        then (case bs of
                c # d # e # r \<Rightarrow>
                  (if b = 0xF0 then 0x90 \<le> c \<and> c \<le> 0xBF
                   else if b = 0xF4 then 0x80 \<le> c \<and> c \<le> 0x8F
                   else continuation c) \<and>
                  continuation d \<and> continuation e \<and> utf8 r
              | _ \<Rightarrow> False)
      else False)"

definition encodable :: "string \<Rightarrow> bool" where
  "encodable s = utf8 (map of_char s)"

definition writable :: "info \<Rightarrow> bool" where
  "writable row = list_all encodable (row_of row)"

text \<open>
  The loop \<^verbatim>\<open>for row in rows\<close>: the rows written, and whether the loop came to its end.
\<close>

fun write_rows :: "info list \<Rightarrow> io list \<times> bool" where
  "write_rows [] = ([], True)"
| "write_rows (row # rows) =
     (if writable row
      then (case write_rows rows of (ops, done) \<Rightarrow> (Write_row (row_of row) # ops, done))
      else ([], False))"

fun writer_loop :: "info list option list \<Rightarrow> io list" where
  "writer_loop [] = [Queue_get]"
| "writer_loop (None # queue) = [Queue_get, Close_file]"
| "writer_loop (Some rows # queue) =
     (case write_rows rows of
        (ops, True) \<Rightarrow> Queue_get # ops @ Task_done # writer_loop queue
      | (ops, False) \<Rightarrow> Queue_get # ops @ [Close_file])"

definition csv_writer_thread :: "artifact \<Rightarrow> info list option list \<Rightarrow> io list" where
  "csv_writer_thread csv_file queue =
     (let file_exists = (csv_file \<noteq> None) in
      Open_append # (if \<not> file_exists then [Write_row header] else []) @ writer_loop queue)"

text \<open>
  The file object is buffered: \<^verbatim>\<open>writerow\<close> adds to the buffer of the process, and the rows
  reach the file when the buffer is flushed or the file is closed. Opening for append
  creates a missing file, empty.
\<close>

record file_state =
  disk :: artifact
  buffer :: "string list list"

definition content :: "artifact \<Rightarrow> csv_line list" where
  "content csv_file = (case csv_file of None \<Rightarrow> [] | Some c \<Rightarrow> c)"

fun apply_io :: "io \<Rightarrow> file_state \<Rightarrow> file_state" where
  "apply_io Open_append st = st\<lparr>disk := Some (content (disk st))\<rparr>"
| "apply_io (Write_row r) st = st\<lparr>buffer := buffer st @ [r]\<rparr>"
| "apply_io Flush_file st =
     st\<lparr>disk := map_option (\<lambda>c. c @ map Row (buffer st)) (disk st), buffer := []\<rparr>"
| "apply_io Close_file st =
     st\<lparr>disk := map_option (\<lambda>c. c @ map Row (buffer st)) (disk st), buffer := []\<rparr>"
| "apply_io Queue_get st = st"
| "apply_io Task_done st = st"

definition run_io :: "io list \<Rightarrow> file_state \<Rightarrow> file_state" where
  "run_io ops st = fold apply_io ops st"

text \<open>
  A run ends by itself, or the process is killed: \<open>Killed n k\<close> is a kill after \<open>n\<close>
  operations of the writer, when the runtime had by itself flushed the first \<open>k\<close> rows of
  the buffer (none, while the buffer has not filled). What the buffer still holds is lost.
\<close>

datatype outcome = Completed | Killed nat nat

definition after_run :: "outcome \<Rightarrow> io list \<Rightarrow> artifact \<Rightarrow> artifact" where
  "after_run oc ops csv_file =
     (case oc of
        Completed \<Rightarrow> disk (run_io ops \<lparr>disk = csv_file, buffer = []\<rparr>)
      | Killed n k \<Rightarrow>
          (let st = run_io (take n ops) \<lparr>disk = csv_file, buffer = []\<rparr>
           in map_option (\<lambda>c. c @ map Row (take k (buffer st))) (disk st)))"

text \<open>The rows the writer writes before the first batch.\<close>

definition head_rows :: "artifact \<Rightarrow> string list list" where
  "head_rows csv_file = (if csv_file = None then [header] else [])"

fun written :: "io list \<Rightarrow> string list list" where
  "written [] = []"
| "written (Write_row r # ops) = r # written ops"
| "written (_ # ops) = written ops"

text \<open>
  The property "what a batch wrote is flushed before the next batch is requested", as a
  check of a sequence of operations: \<open>dirty\<close> says that rows were written since the last
  flush.
\<close>

fun flushed_before_get :: "bool \<Rightarrow> io list \<Rightarrow> bool" where
  "flushed_before_get dirty [] = True"
| "flushed_before_get dirty (Write_row r # ops) = flushed_before_get True ops"
| "flushed_before_get dirty (Flush_file # ops) = flushed_before_get False ops"
| "flushed_before_get dirty (Close_file # ops) = flushed_before_get False ops"
| "flushed_before_get dirty (Queue_get # ops) = (\<not> dirty \<and> flushed_before_get dirty ops)"
| "flushed_before_get dirty (_ # ops) = flushed_before_get dirty ops"

section \<open>The pipeline: \<^verbatim>\<open>process_pdfs\<close>\<close>

definition BATCH_WRITE_SIZE :: nat where
  "BATCH_WRITE_SIZE = 1000"

text \<open>
  The loop over the completed futures and the lines after it: what the main thread puts on
  the queue. (The counters of the summary are left out; no row depends on them.)
\<close>

fun aggregate :: "nat \<Rightarrow> info list \<Rightarrow> info list \<Rightarrow> info list option list" where
  "aggregate n [] batch_rows = (if batch_rows \<noteq> [] then [Some batch_rows] else []) @ [None]"
| "aggregate n (res # rest) batch_rows =
     (if length (batch_rows @ [res]) \<ge> n
      then Some (batch_rows @ [res]) # aggregate n rest []
      else aggregate n rest (batch_rows @ [res]))"

text \<open>
  Version 6. The results are taken in the order of submission; \<^verbatim>\<open>as_completed\<close> may deliver
  them in any other order, which permutes the rows of a run.
\<close>

definition process_pdfs :: "host \<Rightarrow> string \<Rightarrow> artifact \<Rightarrow> bool \<Rightarrow> io list" where
  "process_pdfs h root_path csv_file resume =
     (let processed = (if resume then fst (load_processed_csv h csv_file) else {});
          pdf_gen = filter (\<lambda>p. normcase h p \<notin> processed) (find_pdf_files h root_path);
          results = map (inspect h) pdf_gen
      in csv_writer_thread csv_file (aggregate BATCH_WRITE_SIZE results []))"

definition run_pipeline :: "host \<Rightarrow> string \<Rightarrow> bool \<Rightarrow> outcome \<Rightarrow> artifact \<Rightarrow> artifact" where
  "run_pipeline h root_path resume oc csv_file =
     after_run oc (process_pdfs h root_path csv_file resume) csv_file"

text \<open>
  The paths the filtered generator \<^verbatim>\<open>pdf_gen\<close> of a run yields, and a sequence of runs
  that all end by themselves, each with its host, root and resume flag.
\<close>

definition unprocessed :: "host \<Rightarrow> string \<Rightarrow> artifact \<Rightarrow> bool \<Rightarrow> path list" where
  "unprocessed h root_path csv_file resume =
     filter (\<lambda>p. normcase h p \<notin> (if resume then fst (load_processed_csv h csv_file) else {}))
       (find_pdf_files h root_path)"

fun completed_runs :: "(host \<times> string \<times> bool) list \<Rightarrow> artifact \<Rightarrow> artifact" where
  "completed_runs [] csv_file = csv_file"
| "completed_runs ((h, root_path, resume) # runs) csv_file =
     completed_runs runs (run_pipeline h root_path resume Completed csv_file)"

text \<open>An artifact with the header row on top and in no other place.\<close>

definition header_once :: "artifact \<Rightarrow> bool" where
  "header_once csv_file =
     (\<exists>data. csv_file = Some (Row header # map Row data) \<and> header \<notin> set data)"

section \<open>Feeding the worker pool\<close>

datatype pool_event = Submit path | Consume path

text \<open>
  Version 6 builds the dictionary of futures from the whole generator, then consumes.
\<close>

definition pool_events_v6 :: "path list \<Rightarrow> pool_event list" where
  "pool_events_v6 pdf_gen = map Submit pdf_gen @ map Consume pdf_gen"

text \<open>
  Version 2 collects \<^verbatim>\<open>workers * 10\<close> paths, submits them, and consumes their results
  before it reads on; the rest is submitted and consumed after the loop.
\<close>

fun pool_loop_v2 :: "nat \<Rightarrow> path list \<Rightarrow> path list \<Rightarrow> pool_event list" where
  "pool_loop_v2 batch_size [] pdf_batch = map Submit pdf_batch @ map Consume pdf_batch"
| "pool_loop_v2 batch_size (pdf # rest) pdf_batch =
     (if length (pdf_batch @ [pdf]) \<ge> batch_size
      then map Submit (pdf_batch @ [pdf]) @ map Consume (pdf_batch @ [pdf])
           @ pool_loop_v2 batch_size rest []
      else pool_loop_v2 batch_size rest (pdf_batch @ [pdf]))"

definition pool_events_v2 :: "nat \<Rightarrow> path list \<Rightarrow> pool_event list" where
  "pool_events_v2 workers pdf_gen = pool_loop_v2 (workers * 10) pdf_gen []"

text \<open>
  The largest number of tasks submitted and not yet consumed that a sequence of events
  reaches, starting from \<open>n\<close> such tasks.
\<close>

fun peak :: "nat \<Rightarrow> pool_event list \<Rightarrow> nat" where
  "peak n [] = n"
| "peak n (Submit p # evs) = max n (peak (Suc n) evs)"
| "peak n (Consume p # evs) = max n (peak (n - 1) evs)"

section \<open>A POSIX host over a directory tree\<close>

text \<open>
  For evaluating the scanner: the entries below a root directory, each with its path
  relative to the root (as its components) and what it is. On POSIX
  \<^verbatim>\<open>os.path.normcase\<close> returns its argument, and \<^verbatim>\<open>str(Path(s))\<close> drops empty and \<^verbatim>\<open>.\<close>
  components, keeps a leading slash (two, when there are exactly two), and is \<^verbatim>\<open>.\<close> for
  the empty path.
\<close>

datatype node = Regular int "string + document" | Directory

type_synonym tree = "(string list \<times> node) list"

fun split_on :: "char \<Rightarrow> string \<Rightarrow> string list" where
  "split_on sep [] = [[]]"
| "split_on sep (c # cs) =
     (if c = sep then [] # split_on sep cs
      else (case split_on sep cs of [] \<Rightarrow> [[c]] | x # xs \<Rightarrow> (c # x) # xs))"

fun join :: "string \<Rightarrow> string list \<Rightarrow> string" where
  "join sep [] = []"
| "join sep [x] = x"
| "join sep (x # y # ys) = x @ sep @ join sep (y # ys)"

definition posix_root :: "string \<Rightarrow> string" where
  "posix_root s =
     (case s of
        c1 # c2 # c3 # _ \<Rightarrow>
          if c1 = CHR ''/'' \<and> c2 = CHR ''/'' \<and> c3 \<noteq> CHR ''/'' then ''//''
          else if c1 = CHR ''/'' then ''/'' else []
      | [c1, c2] \<Rightarrow>
          if c1 = CHR ''/'' \<and> c2 = CHR ''/'' then ''//''
          else if c1 = CHR ''/'' then ''/'' else []
      | [c1] \<Rightarrow> if c1 = CHR ''/'' then ''/'' else []
      | [] \<Rightarrow> [])"

definition posix_path_str :: "string \<Rightarrow> path" where
  "posix_path_str s =
     (let parts = filter (\<lambda>x. x \<noteq> [] \<and> x \<noteq> ''.'') (split_on CHR ''/'' s);
          text = posix_root s @ join ''/'' parts
      in if text = [] then ''.'' else text)"

text \<open>
  An entry is named, below the starting point \<open>start\<close>, the way \<^verbatim>\<open>find\<close> prints it: the
  starting point as given, a slash unless it ends in one, and the relative path.
\<close>

definition below :: "path \<Rightarrow> string list \<Rightarrow> string" where
  "below start rel =
     (if start \<noteq> [] \<and> last start = CHR ''/'' then start else start @ ''/'') @ join ''/'' rel"

text \<open>
  A name that \<^verbatim>\<open>-iname *.pdf\<close> accepts; the pattern \<^verbatim>\<open>*.[pP][dD][fF]\<close> accepts the same
  names.
\<close>

definition pdf_name :: "string list \<Rightarrow> bool" where
  "pdf_name rel =
     (rel \<noteq> [] \<and>
      (case rev (last rel) of
         f # d # p # dot # _ \<Rightarrow>
           dot = CHR ''.'' \<and> p \<in> set ''pP'' \<and> d \<in> set ''dD'' \<and> f \<in> set ''fF''
       | _ \<Rightarrow> False))"

fun is_regular :: "node \<Rightarrow> bool" where
  "is_regular (Regular sz opn) = True"
| "is_regular Directory = False"

text \<open>
  \<^verbatim>\<open>find start -type f -iname *.pdf\<close> prints one line for every regular file with such a
  name; \<^verbatim>\<open>Path(start).rglob("*.[pP][dD][fF]")\<close> yields every entry with such a name, of
  any type, as a path object below \<^verbatim>\<open>Path(start)\<close>.
\<close>

definition find_lines :: "path \<Rightarrow> tree \<Rightarrow> string list" where
  "find_lines start t =
     map (\<lambda>(rel, n). below start rel @ [CHR 0x0A])
       (filter (\<lambda>(rel, n). is_regular n \<and> pdf_name rel) t)"

definition rglob_paths :: "path \<Rightarrow> tree \<Rightarrow> path list" where
  "rglob_paths start t =
     map (\<lambda>(rel, n). posix_path_str (below start rel)) (filter (\<lambda>(rel, n). pdf_name rel) t)"

definition lookup_node :: "path \<Rightarrow> tree \<Rightarrow> path \<Rightarrow> node option" where
  "lookup_node root t p =
     map_option snd
       (find (\<lambda>(rel, n). posix_path_str (below (posix_path_str root) rel) = p) t)"

text \<open>
  The host with the tree \<open>t\<close> at \<open>root\<close>; \<open>has_find\<close> says whether the \<^verbatim>\<open>find\<close> command is
  installed (starting a missing command raises before any line is read).
\<close>

definition posix_host :: "path \<Rightarrow> tree \<Rightarrow> bool \<Rightarrow> host" where
  "posix_host root t has_find =
     \<lparr>stat_size = (\<lambda>p. case lookup_node root t p of
                        None \<Rightarrow> Inl ''No such file or directory''
                      | Some (Regular sz opn) \<Rightarrow> Inr sz
                      | Some Directory \<Rightarrow> Inr 4096),
      fitz_open = (\<lambda>p. case lookup_node root t p of
                        None \<Rightarrow> Inl ''no such file''
                      | Some (Regular sz opn) \<Rightarrow> opn
                      | Some Directory \<Rightarrow> Inl ''is no file''),
      path_str = posix_path_str,
      normcase = (\<lambda>s. s),
      windows = False,
      find_stdout = (\<lambda>start. if has_find then (find_lines start t, False) else ([], True)),
      rglob = (\<lambda>start. rglob_paths start t)\<rparr>"

text \<open>
  Two small trees: one regular file \<^verbatim>\<open>a.pdf\<close> of 2048 bytes and 3 pages; and a directory
  named \<^verbatim>\<open>scans.pdf\<close> that holds one such file, \<^verbatim>\<open>p1.pdf\<close>.
\<close>

definition single_pdf_tree :: tree where
  "single_pdf_tree = [([''a.pdf''], Regular 2048 (Inr (plain_doc 3)))]"

definition scans_tree :: tree where
  "scans_tree = [([''scans.pdf''], Directory),
                 ([''scans.pdf'', ''p1.pdf''], Regular 2048 (Inr (plain_doc 3)))]"

text \<open>The set of normalised identities a scan of \<open>root_path\<close> produces.\<close>

definition identities :: "host \<Rightarrow> string \<Rightarrow> string set" where
  "identities h root_path = normcase h ` set (find_pdf_files h root_path)"

section \<open>Properties of the inspector\<close>

lemma inspect_cases:
  "inspect h p =
     (case stat_size h (path_str h p) of
        Inl e \<Rightarrow> (initial_info (path_str h p))\<lparr>error_message := e\<rparr>
      | Inr sz \<Rightarrow>
          if sz < 100
          then (initial_info (path_str h p))\<lparr>file_size_bytes := sz, error_message := ''too small''\<rparr>
          else (case fitz_open h (path_str h p) of
                  Inl e \<Rightarrow> (initial_info (path_str h p))\<lparr>file_size_bytes := sz, error_message := e\<rparr>
                | Inr doc \<Rightarrow>
                    if doc_is_encrypted doc
                    then (initial_info (path_str h p))
                           \<lparr>file_size_bytes := sz, error_message := ''encrypted''\<rparr>
                    else (case doc_page_count doc of
                            Inl e \<Rightarrow> (initial_info (path_str h p))
                                       \<lparr>file_size_bytes := sz, error_message := e\<rparr>
                          | Inr n \<Rightarrow> (initial_info (path_str h p))
                                       \<lparr>file_size_bytes := sz, page_count := n, can_open := True,
                                        category :=
                                          (if n > PAGE_COUNT_THRESHOLD then ''L'' else ''S'') @ ''-'' @
                                          (if sz > FILE_SIZE_THRESHOLD_BYTES then ''L'' else ''S'')\<rparr>)))"
  by (simp add: inspect_def process_single_pdf_def Let_def split: sum.splits)

lemma inspect_calls_cases:
  "inspect_calls h p =
     (case stat_size h (path_str h p) of
        Inl e \<Rightarrow> [Stat (path_str h p)]
      | Inr sz \<Rightarrow>
          if sz < 100 then [Stat (path_str h p)]
          else (case fitz_open h (path_str h p) of
                  Inl e \<Rightarrow> [Stat (path_str h p), Open_doc (path_str h p)]
                | Inr doc \<Rightarrow> [Stat (path_str h p), Open_doc (path_str h p), Close_doc]))"
  by (simp add: inspect_calls_def process_single_pdf_def Let_def split: sum.splits)

text \<open>
  Claim C2 (category correctness). For every result with \<open>can_open\<close> true, the category
  is the page class, a hyphen and the size class: the page class is \<open>L\<close> when the page
  count is strictly greater than the page threshold (100) and \<open>S\<close> otherwise, the size
  class is \<open>L\<close> when the size in bytes is strictly greater than the byte threshold
  (10 MiB, 10485760 bytes) and \<open>S\<close> otherwise. A value equal to its threshold is
  classified \<open>S\<close>, since both comparisons are strict.
\<close>

theorem category_correct:
  assumes "can_open (inspect h p)"
  shows "category (inspect h p) =
           (if page_count (inspect h p) > PAGE_COUNT_THRESHOLD then ''L'' else ''S'') @ ''-'' @
           (if file_size_bytes (inspect h p) > FILE_SIZE_THRESHOLD_BYTES then ''L'' else ''S'')
         \<and> PAGE_COUNT_THRESHOLD = 100 \<and> FILE_SIZE_THRESHOLD_BYTES = 10485760"
  using assms
  by (auto simp: inspect_cases initial_info_def PAGE_COUNT_THRESHOLD_def
        FILE_SIZE_THRESHOLD_BYTES_def split: sum.splits if_splits)

text \<open>At the two thresholds exactly the category is \<open>S-S\<close>; one page and one byte more
  give \<open>L-L\<close>.\<close>

theorem category_correct_witness:
  "can_open (inspect (one_file_host (Inr 10485760) (Inr (plain_doc 100))) ''a.pdf'') \<and>
   category (inspect (one_file_host (Inr 10485760) (Inr (plain_doc 100))) ''a.pdf'') = ''S-S'' \<and>
   can_open (inspect (one_file_host (Inr 10485761) (Inr (plain_doc 101))) ''b.pdf'') \<and>
   category (inspect (one_file_host (Inr 10485761) (Inr (plain_doc 101))) ''b.pdf'') = ''L-L''"
proof -
  let ?a = "inspect (one_file_host (Inr 10485760) (Inr (plain_doc 100))) ''a.pdf''"
  let ?b = "inspect (one_file_host (Inr 10485761) (Inr (plain_doc 101))) ''b.pdf''"
  have a: "can_open ?a" and pa: "page_count ?a = 100" and sa: "file_size_bytes ?a = 10485760"
    by (simp_all add: inspect_cases one_file_host_def plain_doc_def initial_info_def)
  have b: "can_open ?b" and pb: "page_count ?b = 101" and sb: "file_size_bytes ?b = 10485761"
    by (simp_all add: inspect_cases one_file_host_def plain_doc_def initial_info_def)
  from category_correct [OF a, THEN conjunct1] have "category ?a = ''S-S''"
    by (simp add: pa sa PAGE_COUNT_THRESHOLD_def FILE_SIZE_THRESHOLD_BYTES_def)
  moreover from category_correct [OF b, THEN conjunct1] have "category ?b = ''L-L''"
    by (simp add: pb sb PAGE_COUNT_THRESHOLD_def FILE_SIZE_THRESHOLD_BYTES_def)
  ultimately show ?thesis using a b by blast
qed

text \<open>
  Claim C3 (the inspector captures every failure). \<open>inspect\<close> is a function into result
  records: every exception the \<^verbatim>\<open>try\<close> block can meet is a value of the host and ends in a
  record. When \<^verbatim>\<open>stat\<close> raises, its message is the error message and nothing is opened. A
  file of fewer than 100 bytes gives \<open>too small\<close>, and the only call made is the
  \<^verbatim>\<open>stat\<close>: the document is not opened. When opening raises, the message of the exception
  is the error message. An encrypted document gives \<open>encrypted\<close>. When reading the page
  count raises, its message is the error message. In all five cases \<open>can_open\<close> is false and
  the category is \<open>N/A\<close>.
\<close>

theorem inspect_captures_failures:
  "(\<forall>e. stat_size h (path_str h p) = Inl e \<longrightarrow>
       error_message (inspect h p) = e \<and> \<not> can_open (inspect h p) \<and>
       category (inspect h p) = ''N/A'' \<and> inspect_calls h p = [Stat (path_str h p)]) \<and>
   (\<forall>sz. stat_size h (path_str h p) = Inr sz \<and> sz < 100 \<longrightarrow>
       error_message (inspect h p) = ''too small'' \<and> \<not> can_open (inspect h p) \<and>
       category (inspect h p) = ''N/A'' \<and> inspect_calls h p = [Stat (path_str h p)]) \<and>
   (\<forall>sz e. stat_size h (path_str h p) = Inr sz \<and> \<not> sz < 100 \<and>
       fitz_open h (path_str h p) = Inl e \<longrightarrow>
       error_message (inspect h p) = e \<and> \<not> can_open (inspect h p) \<and>
       category (inspect h p) = ''N/A'') \<and>
   (\<forall>sz doc. stat_size h (path_str h p) = Inr sz \<and> \<not> sz < 100 \<and>
       fitz_open h (path_str h p) = Inr doc \<and> doc_is_encrypted doc \<longrightarrow>
       error_message (inspect h p) = ''encrypted'' \<and> \<not> can_open (inspect h p) \<and>
       category (inspect h p) = ''N/A'') \<and>
   (\<forall>sz doc e. stat_size h (path_str h p) = Inr sz \<and> \<not> sz < 100 \<and>
       fitz_open h (path_str h p) = Inr doc \<and> \<not> doc_is_encrypted doc \<and>
       doc_page_count doc = Inl e \<longrightarrow>
       error_message (inspect h p) = e \<and> \<not> can_open (inspect h p) \<and>
       category (inspect h p) = ''N/A'')"
  by (simp add: inspect_cases inspect_calls_cases initial_info_def)

text \<open>One host for each of the five failures.\<close>

theorem inspect_captures_failures_witness:
  "error_message (inspect (one_file_host (Inl ''Permission denied'') (Inl ''x'')) ''a.pdf'')
     = ''Permission denied'' \<and>
   error_message (inspect (one_file_host (Inr 99) (Inr (plain_doc 1))) ''a.pdf'') = ''too small'' \<and>
   inspect_calls (one_file_host (Inr 99) (Inr (plain_doc 1))) ''a.pdf'' = [Stat ''a.pdf''] \<and>
   error_message (inspect (one_file_host (Inr 100) (Inl ''cannot open broken document'')) ''a.pdf'')
     = ''cannot open broken document'' \<and>
   category (inspect (one_file_host (Inr 100) (Inl ''cannot open broken document'')) ''a.pdf'')
     = ''N/A'' \<and>
   error_message (inspect (one_file_host (Inr 5000)
       (Inr \<lparr>doc_is_encrypted = True, doc_page_count = Inr 7\<rparr>)) ''a.pdf'') = ''encrypted'' \<and>
   \<not> can_open (inspect (one_file_host (Inr 5000)
       (Inr \<lparr>doc_is_encrypted = True, doc_page_count = Inr 7\<rparr>)) ''a.pdf'') \<and>
   error_message (inspect (one_file_host (Inr 5000)
       (Inr \<lparr>doc_is_encrypted = False, doc_page_count = Inl ''bad page tree''\<rparr>)) ''a.pdf'')
     = ''bad page tree''"
  using
    inspect_captures_failures [of "one_file_host (Inl ''Permission denied'') (Inl ''x'')" "''a.pdf''"]
    inspect_captures_failures [of "one_file_host (Inr 99) (Inr (plain_doc 1))" "''a.pdf''"]
    inspect_captures_failures [of "one_file_host (Inr 100) (Inl ''cannot open broken document'')" "''a.pdf''"]
    inspect_captures_failures [of "one_file_host (Inr 5000)
       (Inr \<lparr>doc_is_encrypted = True, doc_page_count = Inr 7\<rparr>)" "''a.pdf''"]
    inspect_captures_failures [of "one_file_host (Inr 5000)
       (Inr \<lparr>doc_is_encrypted = False, doc_page_count = Inl ''bad page tree''\<rparr>)" "''a.pdf''"]
  by (simp add: one_file_host_def)

text \<open>
  Claim C8 (invariant of the result record). In every result of \<open>inspect\<close>: if \<open>can_open\<close>
  is true then the error message is empty and the category is not \<open>N/A\<close>; and if the
  category is \<open>N/A\<close> then \<open>can_open\<close> is false.
\<close>

theorem result_invariant:
  "(can_open (inspect h p) \<longrightarrow>
      error_message (inspect h p) = '''' \<and> category (inspect h p) \<noteq> ''N/A'') \<and>
   (category (inspect h p) = ''N/A'' \<longrightarrow> \<not> can_open (inspect h p))"
  by (simp add: inspect_cases initial_info_def split: sum.splits)

text \<open>An openable document, and a file that is too small.\<close>

theorem result_invariant_witness:
  "can_open (inspect (one_file_host (Inr 2048) (Inr (plain_doc 3))) ''a.pdf'') \<and>
   error_message (inspect (one_file_host (Inr 2048) (Inr (plain_doc 3))) ''a.pdf'') = '''' \<and>
   category (inspect (one_file_host (Inr 2048) (Inr (plain_doc 3))) ''a.pdf'') \<noteq> ''N/A'' \<and>
   category (inspect (one_file_host (Inr 12) (Inr (plain_doc 3))) ''b.pdf'') = ''N/A'' \<and>
   \<not> can_open (inspect (one_file_host (Inr 12) (Inr (plain_doc 3))) ''b.pdf'')"
proof -
  let ?a = "inspect (one_file_host (Inr 2048) (Inr (plain_doc 3))) ''a.pdf''"
  let ?b = "inspect (one_file_host (Inr 12) (Inr (plain_doc 3))) ''b.pdf''"
  have a: "can_open ?a"
    by (simp add: inspect_cases one_file_host_def plain_doc_def initial_info_def)
  have b: "category ?b = ''N/A''"
    by (simp add: inspect_cases one_file_host_def plain_doc_def initial_info_def)
  from result_invariant [of "one_file_host (Inr 2048) (Inr (plain_doc 3))" "''a.pdf''"] a
  have "error_message ?a = '''' \<and> category ?a \<noteq> ''N/A''" by blast
  moreover
  from result_invariant [of "one_file_host (Inr 12) (Inr (plain_doc 3))" "''b.pdf''"] b
  have "\<not> can_open ?b" by blast
  ultimately show ?thesis using a b by blast
qed

section \<open>Properties of the ledger\<close>

lemma load_rows_fst:
  "fst (load_rows nc fns lines S) =
     S \<union> {nc p | r p. Row r \<in> set (takeWhile is_row lines) \<and>
                      dict_get fns r ''file_path'' = Some p \<and> p \<noteq> []}"
proof (induction lines arbitrary: S)
  case Nil
  then show ?case by simp
next
  case (Cons l lines)
  show ?case
  proof (cases l)
    case (Row r)
    show ?thesis
    proof (cases "dict_get fns r ''file_path''")
      case None
      then show ?thesis using Row Cons.IH by auto
    next
      case (Some p)
      have "r \<noteq> []" using Some by (auto simp: dict_get_def split: if_splits)
      then show ?thesis using Row Some Cons.IH by auto
    qed
  next
    case (Raises e)
    then show ?thesis by simp
  qed
qed




section \<open>Properties of a run\<close>



section \<open>Properties of the writer thread\<close>

lemma run_io_append: "run_io (xs @ ys) st = run_io ys (run_io xs st)"
  by (simp add: run_io_def)

lemma written_append: "written (xs @ ys) = written xs @ written ys"
  by (induction xs rule: written.induct) simp_all

lemma written_rows: "written (map (\<lambda>row. Write_row (f row)) rows) = map f rows"
  by (induction rows) simp_all

lemma run_io_unflushed:
  assumes "Flush_file \<notin> set xs" and "Close_file \<notin> set xs"
  shows "buffer (run_io xs st) = buffer st @ written xs \<and>
         disk (run_io xs st) =
           (if Open_append \<in> set xs then Some (content (disk st)) else disk st)"
  using assms
proof (induction xs arbitrary: st)
  case Nil
  then show ?case by (simp add: run_io_def)
next
  case (Cons x xs)
  then have IH: "buffer (run_io xs (apply_io x st)) = buffer (apply_io x st) @ written xs \<and>
         disk (run_io xs (apply_io x st)) =
           (if Open_append \<in> set xs then Some (content (disk (apply_io x st)))
            else disk (apply_io x st))"
    by simp
  have step: "run_io (x # xs) st = run_io xs (apply_io x st)"
    by (simp add: run_io_def)
  from Cons.prems show ?case
    unfolding step using IH by (cases x) (simp_all add: content_def)
qed

lemma write_rows_takeWhile:
  "write_rows rows =
     (map (\<lambda>row. Write_row (row_of row)) (takeWhile writable rows), list_all writable rows)"
  by (induction rows) simp_all

text \<open>
  On a queue that ends with the sentinel the writer closes the file once, as its last
  operation, and never flushes; the rows it writes are those of the results up to the
  first that cannot be encoded.
\<close>

lemma writer_loop_body:
  "\<exists>body. writer_loop (map Some bs @ [None]) = body @ [Close_file] \<and>
          Flush_file \<notin> set body \<and> Close_file \<notin> set body \<and> Open_append \<notin> set body \<and>
          written body = map row_of (takeWhile writable (concat bs))"
proof (induction bs)
  case Nil
  have "writer_loop (map Some [] @ [None]) = [Queue_get] @ [Close_file]" by simp
  then show ?case by fastforce
next
  case (Cons b bs)
  let ?w = "map (\<lambda>row. Write_row (row_of row)) (takeWhile writable b)"
  have plain: "Flush_file \<notin> set ?w" "Close_file \<notin> set ?w" "Open_append \<notin> set ?w"
    by auto
  have wr: "written ?w = map row_of (takeWhile writable b)"
    by (rule written_rows)
  show ?case
  proof (cases "list_all writable b")
    case True
    from Cons.IH obtain body where
      body: "writer_loop (map Some bs @ [None]) = body @ [Close_file]"
      "Flush_file \<notin> set body" "Close_file \<notin> set body" "Open_append \<notin> set body"
      "written body = map row_of (takeWhile writable (concat bs))"
      by blast
    from True have all: "takeWhile writable b = b"
      by (simp add: list_all_iff)
    from True have app: "takeWhile writable (b @ concat bs) = b @ takeWhile writable (concat bs)"
      by (simp add: list_all_iff takeWhile_append2)
    let ?body = "Queue_get # ?w @ Task_done # body"
    have "writer_loop (map Some (b # bs) @ [None]) = ?body @ [Close_file]"
      using True body(1) by (simp add: write_rows_takeWhile)
    moreover have "Flush_file \<notin> set ?body" "Close_file \<notin> set ?body" "Open_append \<notin> set ?body"
      using plain body(2-4) by auto
    moreover have "written ?body = map row_of (takeWhile writable (concat (b # bs)))"
      by (simp add: written_append written_rows body(5) all app)
    ultimately show ?thesis by blast
  next
    case False
    then obtain x where x: "x \<in> set b" "\<not> writable x"
      by (auto simp: list_all_iff)
    then have app: "takeWhile writable (b @ concat bs) = takeWhile writable b"
      by (simp add: takeWhile_append1)
    let ?body = "Queue_get # ?w"
    have "writer_loop (map Some (b # bs) @ [None]) = ?body @ [Close_file]"
      using False by (simp add: write_rows_takeWhile)
    moreover have "Flush_file \<notin> set ?body" "Close_file \<notin> set ?body" "Open_append \<notin> set ?body"
      using plain by auto
    moreover have "written ?body = map row_of (takeWhile writable (concat (b # bs)))"
      using wr app by simp
    ultimately show ?thesis by blast
  qed
qed

lemma writer_completed:
  "after_run Completed (csv_writer_thread csv (map Some bs @ [None])) csv =
     Some (content csv @
           map Row (head_rows csv @ map row_of (takeWhile writable (concat bs))))"
proof -
  from writer_loop_body [of bs] obtain body where
    body: "writer_loop (map Some bs @ [None]) = body @ [Close_file]"
    "Flush_file \<notin> set body" "Close_file \<notin> set body" "Open_append \<notin> set body"
    "written body = map row_of (takeWhile writable (concat bs))"
    by blast
  define pre where "pre = Open_append # map Write_row (head_rows csv) @ body"
  let ?st = "\<lparr>disk = csv, buffer = []\<rparr>"
  have ops: "csv_writer_thread csv (map Some bs @ [None]) = pre @ [Close_file]"
    by (simp add: csv_writer_thread_def body(1) pre_def head_rows_def)
  have plain: "Flush_file \<notin> set pre" "Close_file \<notin> set pre"
    using body(2,3) by (auto simp: pre_def)
  have w: "written pre = head_rows csv @ map row_of (takeWhile writable (concat bs))"
    using written_rows [of "\<lambda>r. r" "head_rows csv"] body(5)
    by (simp add: pre_def written_append)
  have o: "Open_append \<in> set pre" by (simp add: pre_def)
  from run_io_unflushed [OF plain, of ?st] o
  have b: "buffer (run_io pre ?st) = written pre"
    and d: "disk (run_io pre ?st) = Some (content csv)"
    by simp_all
  have "run_io (pre @ [Close_file]) ?st = apply_io Close_file (run_io pre ?st)"
    by (simp add: run_io_def)
  then have "disk (run_io (pre @ [Close_file]) ?st) = Some (content csv @ map Row (written pre))"
    by (simp add: b d)
  then show ?thesis
    unfolding ops w by (simp add: after_run_def)
qed

text \<open>
  Claim C5 (flush after every batch) on an existing artifact and a queue with one batch
  of one row, then the sentinel. The writer opens the file, requests the batch, writes
  its row, marks the batch done and requests the next item; after the sentinel it closes
  the file. No flush stands between the row and the second request: the check of the
  property claimed fails on this sequence. A process killed at that moment, the batch
  marked done and the row in the buffer, leaves the artifact without the row.
\<close>

theorem writer_requests_next_batch_unflushed:
  "csv_writer_thread (Some [Row header])
       [Some [inspect (one_file_host (Inr 2048) (Inr (plain_doc 3))) ''a.pdf''], None]
     = [Open_append, Queue_get,
        Write_row [''a.pdf'', ''2048'', ''True'', ''3'', ''0.0'', '''', ''S-S''],
        Task_done, Queue_get, Close_file] \<and>
   \<not> flushed_before_get False
       (csv_writer_thread (Some [Row header])
          [Some [inspect (one_file_host (Inr 2048) (Inr (plain_doc 3))) ''a.pdf''], None]) \<and>
   after_run (Killed 5 0)
       (csv_writer_thread (Some [Row header])
          [Some [inspect (one_file_host (Inr 2048) (Inr (plain_doc 3))) ''a.pdf''], None])
       (Some [Row header])
     = Some [Row header]"
  by code_simp

section \<open>Properties of the submission to the pool\<close>

lemma peak_ge: "n \<le> peak n evs"
  by (induction n evs rule: peak.induct) simp_all

lemma peak_submits: "peak n (map Submit ps @ evs) = peak (n + length ps) evs"
proof (induction ps arbitrary: n)
  case Nil
  then show ?case by simp
next
  case (Cons p ps)
  have "n \<le> peak (Suc n + length ps) evs"
    using peak_ge [of "Suc n + length ps" evs] by simp
  with Cons show ?case by (simp add: max_def)
qed

lemma peak_consumes:
  "length ps \<le> n \<Longrightarrow> peak n (map Consume ps @ evs) = max n (peak (n - length ps) evs)"
proof (induction ps arbitrary: n)
  case Nil
  then show ?case using peak_ge [of n evs] by (simp add: max_def)
next
  case (Cons p ps)
  from Cons.prems obtain m where n: "n = Suc m" and m: "length ps \<le> m"
    by (cases n) simp_all
  from Cons.IH [OF m] show ?case unfolding n by (simp add: max_def)
qed

lemma pool_loop_v2_bounded:
  assumes "0 < batch_size" and "length pdf_batch < batch_size"
  shows "peak 0 (pool_loop_v2 batch_size pdf_gen pdf_batch) \<le> batch_size"
  using assms(2)
proof (induction pdf_gen arbitrary: pdf_batch)
  case Nil
  have "peak 0 (map Submit pdf_batch @ map Consume pdf_batch @ []) = length pdf_batch"
    by (simp only: peak_submits peak_consumes) simp
  with Nil show ?case by simp
next
  case (Cons pdf rest)
  show ?case
  proof (cases "batch_size \<le> length (pdf_batch @ [pdf])")
    case True
    with Cons.prems have len: "length (pdf_batch @ [pdf]) = batch_size" by simp
    have "peak 0 (map Submit (pdf_batch @ [pdf]) @ map Consume (pdf_batch @ [pdf])
                  @ pool_loop_v2 batch_size rest [])
          = max batch_size (peak 0 (pool_loop_v2 batch_size rest []))"
      using peak_submits [of 0 "pdf_batch @ [pdf]"]
        peak_consumes [of "pdf_batch @ [pdf]" batch_size "pool_loop_v2 batch_size rest []"] len
      by simp
    moreover have "peak 0 (pool_loop_v2 batch_size rest []) \<le> batch_size"
      using Cons.IH [of "[]"] assms(1) by simp
    ultimately show ?thesis using True by simp
  next
    case False
    then have "length (pdf_batch @ [pdf]) < batch_size" by simp
    from Cons.IH [OF this] False show ?thesis by simp
  qed
qed

text \<open>
  Version 2 never has more than \<^verbatim>\<open>workers * 10\<close> tasks submitted and not consumed.
\<close>

lemma pool_events_v2_bounded:
  "0 < workers \<Longrightarrow> peak 0 (pool_events_v2 workers pdf_gen) \<le> workers * 10"
  unfolding pool_events_v2_def by (rule pool_loop_v2_bounded) simp_all

text \<open>
  Claim C4 (bounded submission) on version 6. The claim asks for a bound on the tasks
  submitted and not yet consumed that is a small multiple of the number of workers and
  does not depend on the number of files. Version 6 submits the whole stream before it
  consumes the first result: the number of such tasks reaches the number of paths the
  filtered generator yields, whatever the number of workers.
\<close>

theorem pool_events_v6_peak: "peak 0 (pool_events_v6 pdf_gen) = length pdf_gen"
proof -
  have "peak 0 (map Submit pdf_gen @ map Consume pdf_gen @ []) = length pdf_gen"
    by (simp only: peak_submits peak_consumes) simp
  then show ?thesis by (simp add: pool_events_v6_def)
qed

section \<open>Runs that end by themselves\<close>

text \<open>The queue of a run: the results cut into batches, then the sentinel.\<close>

lemma aggregate_batches:
  "\<exists>bs. aggregate n rs acc = map Some bs @ [None] \<and> concat bs = acc @ rs"
proof (induction rs arbitrary: acc)
  case Nil
  show ?case
  proof (cases "acc = []")
    case True
    then have "aggregate n [] acc = map Some [] @ [None] \<and> concat [] = acc @ []" by simp
    then show ?thesis by blast
  next
    case False
    then have "aggregate n [] acc = map Some [acc] @ [None] \<and> concat [acc] = acc @ []" by simp
    then show ?thesis by blast
  qed
next
  case (Cons r rs)
  show ?case
  proof (cases "n \<le> length (acc @ [r])")
    case True
    from Cons.IH [of "[]"] obtain bs where
      bs: "aggregate n rs [] = map Some bs @ [None]" "concat bs = rs" by auto
    with True have "aggregate n (r # rs) acc = map Some ((acc @ [r]) # bs) @ [None] \<and>
                    concat ((acc @ [r]) # bs) = acc @ r # rs" by simp
    then show ?thesis by blast
  next
    case False
    from Cons.IH [of "acc @ [r]"] obtain bs where
      "aggregate n rs (acc @ [r]) = map Some bs @ [None]" "concat bs = (acc @ [r]) @ rs" by auto
    with False have "aggregate n (r # rs) acc = map Some bs @ [None] \<and>
                     concat bs = acc @ r # rs" by simp
    then show ?thesis by blast
  qed
qed

lemma process_pdfs_unprocessed:
  "process_pdfs h root_path csv resume =
     csv_writer_thread csv
       (aggregate BATCH_WRITE_SIZE (map (inspect h) (unprocessed h root_path csv resume)) [])"
  by (simp add: process_pdfs_def unprocessed_def Let_def)

text \<open>
  A run that ends by itself appends, after what the artifact held, the header if the
  artifact did not exist, and one row for every path of the filtered generator up to the
  first whose row cannot be encoded.
\<close>

lemma completed_run:
  "run_pipeline h root_path resume Completed csv =
     Some (content csv @
           map Row (head_rows csv @
                    map row_of (takeWhile writable
                                  (map (inspect h) (unprocessed h root_path csv resume)))))"
proof -
  obtain bs where
    bs: "aggregate BATCH_WRITE_SIZE (map (inspect h) (unprocessed h root_path csv resume)) []
           = map Some bs @ [None]"
    and c: "concat bs = map (inspect h) (unprocessed h root_path csv resume)"
    using aggregate_batches [of BATCH_WRITE_SIZE
        "map (inspect h) (unprocessed h root_path csv resume)" "[]"] by auto
  from bs c show ?thesis
    by (simp add: run_pipeline_def process_pdfs_unprocessed writer_completed)
qed

lemma row_of_not_header: "row_of x \<noteq> header"
  by (simp add: row_of_def header_def str_bool_def)

text \<open>
  Starting from no artifact, any number of runs that all end by themselves leave the
  header on top and nowhere else.
\<close>

lemma completed_run_header_once:
  assumes "csv = None \<or> header_once csv"
  shows "header_once (run_pipeline h root_path resume Completed csv)"
proof -
  let ?new = "map row_of (takeWhile writable
                            (map (inspect h) (unprocessed h root_path csv resume)))"
  have new: "header \<notin> set ?new" using row_of_not_header [symmetric] by fastforce
  from assms show ?thesis
  proof
    assume "csv = None"
    then have "run_pipeline h root_path resume Completed csv = Some (Row header # map Row ?new)"
      by (simp add: completed_run content_def head_rows_def)
    with new show ?thesis unfolding header_once_def by blast
  next
    assume "header_once csv"
    then obtain data where d: "csv = Some (Row header # map Row data)" "header \<notin> set data"
      unfolding header_once_def by blast
    then have "run_pipeline h root_path resume Completed csv
                 = Some (Row header # map Row (data @ ?new))"
      by (simp add: completed_run content_def head_rows_def)
    moreover from d new have "header \<notin> set (data @ ?new)" by simp
    ultimately show ?thesis unfolding header_once_def by blast
  qed
qed

lemma completed_runs_header_once:
  "csv = None \<or> header_once csv \<Longrightarrow> runs \<noteq> [] \<Longrightarrow> header_once (completed_runs runs csv)"
proof (induction runs arbitrary: csv)
  case Nil
  then show ?case by simp
next
  case (Cons run runs)
  obtain h root_path resume where run: "run = (h, root_path, resume)" by (cases run)
  have first: "header_once (run_pipeline h root_path resume Completed csv)"
    using Cons.prems(1) by (rule completed_run_header_once)
  show ?case
  proof (cases "runs = []")
    case True
    with first run show ?thesis by simp
  next
    case False
    from Cons.IH [OF _ False, of "run_pipeline h root_path resume Completed csv"] first run
    show ?thesis by simp
  qed
qed

text \<open>A scan yields no two paths with the same normalised identity.\<close>

lemma find_loop_props:
  "snd (find_loop nc lines seen) = seen \<union> nc ` set (fst (find_loop nc lines seen)) \<and>
   distinct (map nc (fst (find_loop nc lines seen))) \<and>
   nc ` set (fst (find_loop nc lines seen)) \<inter> seen = {} \<and>
   [] \<notin> set (fst (find_loop nc lines seen))"
proof (induction lines arbitrary: seen)
  case Nil
  then show ?case by simp
next
  case (Cons line rest)
  show ?case
  proof (cases "strip line = [] \<or> nc (strip line) \<in> seen")
    case True
    then show ?thesis using Cons.IH [of seen] by auto
  next
    case False
    obtain out seen' where r: "find_loop nc rest (insert (nc (strip line)) seen) = (out, seen')"
      by (cases "find_loop nc rest (insert (nc (strip line)) seen)")
    from Cons.IH [of "insert (nc (strip line)) seen"] r
    have IH: "seen' = insert (nc (strip line)) seen \<union> nc ` set out"
      "distinct (map nc out)" "nc ` set out \<inter> insert (nc (strip line)) seen = {}"
      "[] \<notin> set out"
      by simp_all
    from False r have "find_loop nc (line # rest) seen = (strip line # out, seen')" by simp
    with IH False show ?thesis by auto
  qed
qed

lemma rglob_loop_props:
  "snd (rglob_loop nc ps seen) = seen \<union> nc ` set (fst (rglob_loop nc ps seen)) \<and>
   distinct (map nc (fst (rglob_loop nc ps seen))) \<and>
   nc ` set (fst (rglob_loop nc ps seen)) \<inter> seen = {}"
proof (induction ps arbitrary: seen)
  case Nil
  then show ?case by simp
next
  case (Cons p rest)
  show ?case
  proof (cases "nc p \<in> seen")
    case True
    then show ?thesis using Cons.IH [of seen] by auto
  next
    case False
    obtain out seen' where r: "rglob_loop nc rest (insert (nc p) seen) = (out, seen')"
      by (cases "rglob_loop nc rest (insert (nc p) seen)")
    from Cons.IH [of "insert (nc p) seen"] r
    have IH: "seen' = insert (nc p) seen \<union> nc ` set out"
      "distinct (map nc out)" "nc ` set out \<inter> insert (nc p) seen = {}"
      by simp_all
    from False r have "rglob_loop nc (p # rest) seen = (p # out, seen')" by simp
    with IH False show ?thesis by auto
  qed
qed

lemma find_pdf_files_distinct: "distinct (map (normcase h) (find_pdf_files h root_path))"
proof (cases "windows h")
  case True
  then show ?thesis
    using rglob_loop_props [of "normcase h" "rglob h (path_str h root_path)" "{}"]
    by (simp add: find_pdf_files_def)
next
  case False
  obtain lines raised where f: "find_stdout h (path_str h root_path) = (lines, raised)"
    by (cases "find_stdout h (path_str h root_path)")
  obtain out seen where l: "find_loop (normcase h) lines {} = (out, seen)"
    by (cases "find_loop (normcase h) lines {}")
  from find_loop_props [of "normcase h" lines "{}"] l
  have out: "seen = normcase h ` set out" "distinct (map (normcase h) out)" by simp_all
  let ?more = "fst (rglob_loop (normcase h) (rglob h (path_str h root_path)) seen)"
  from rglob_loop_props [of "normcase h" "rglob h (path_str h root_path)" seen]
  have more: "distinct (map (normcase h) ?more)" "normcase h ` set ?more \<inter> seen = {}"
    by simp_all
  have "distinct (map (normcase h) (out @ ?more))"
    using out more by auto
  with False f l out show ?thesis
    by (simp add: find_pdf_files_def)
qed

text \<open>
  The ledger of an artifact written by the writer, and a second run with resume on a host
  where \<^verbatim>\<open>str(Path(p))\<close> is \<open>p\<close> for every path discovered and every row can be encoded:
  the second run adds no row. The identities of the rows of the first run are distinct.
\<close>

lemma file_path_inspect: "file_path (inspect h p) = path_str h p"
  by (simp add: inspect_cases initial_info_def split: sum.splits)

lemma dict_get_file_path: "dict_get header (row_of x) ''file_path'' = Some (file_path x)"
  by (simp add: dict_get_def header_def row_of_def)

lemma takeWhile_rows: "takeWhile is_row (map Row rs) = map Row rs"
  by (induction rs) simp_all

lemma ledger_of_rows:
  "fst (load_processed_csv h (Some (Row header # map Row (map row_of xs)))) =
     {normcase h (file_path x) | x. x \<in> set xs \<and> file_path x \<noteq> []}"
proof -
  define rs where "rs = map row_of xs"
  have "fst (load_processed_csv h (Some (Row header # map Row rs))) =
          fst (load_rows (normcase h) header (map Row rs) {})"
    by (simp add: load_processed_csv_def split: prod.splits option.splits)
  also have "\<dots> = {normcase h p | r p. Row r \<in> set (map Row rs) \<and>
                        dict_get header r ''file_path'' = Some p \<and> p \<noteq> []}"
    by (simp only: load_rows_fst takeWhile_rows) simp
  also have "\<dots> = {normcase h (file_path x) | x. x \<in> set xs \<and> file_path x \<noteq> []}"
  proof (intro set_eqI iffI)
    fix i
    assume "i \<in> {normcase h p | r p. Row r \<in> set (map Row rs) \<and>
                        dict_get header r ''file_path'' = Some p \<and> p \<noteq> []}"
    then obtain r p where rp: "r \<in> set rs" "dict_get header r ''file_path'' = Some p"
      "p \<noteq> []" "i = normcase h p" by auto
    from rp(1) obtain x where x: "x \<in> set xs" "r = row_of x" unfolding rs_def by auto
    with rp have "p = file_path x" by (simp add: dict_get_file_path)
    with rp x show "i \<in> {normcase h (file_path x) | x. x \<in> set xs \<and> file_path x \<noteq> []}"
      by blast
  next
    fix i
    assume "i \<in> {normcase h (file_path x) | x. x \<in> set xs \<and> file_path x \<noteq> []}"
    then obtain x where x: "x \<in> set xs" "file_path x \<noteq> []" "i = normcase h (file_path x)"
      by blast
    then have "Row (row_of x) \<in> set (map Row rs)" unfolding rs_def by simp
    with x dict_get_file_path [of x]
    show "i \<in> {normcase h p | r p. Row r \<in> set (map Row rs) \<and>
                        dict_get header r ''file_path'' = Some p \<and> p \<noteq> []}"
      by blast
  qed
  finally show ?thesis unfolding rs_def .
qed

lemma unprocessed_no_artifact: "unprocessed h root_path None resume = find_pdf_files h root_path"
  by (simp add: unprocessed_def load_processed_csv_def)

lemma first_run:
  "run_pipeline h root_path resume Completed None =
     Some (Row header #
           map Row (map row_of (takeWhile writable
                                  (map (inspect h) (find_pdf_files h root_path)))))"
  by (simp add: completed_run unprocessed_no_artifact content_def head_rows_def)

lemma resume_idempotent_on_normal_paths:
  assumes "\<forall>p \<in> set (find_pdf_files h root_path).
             path_str h p = p \<and> p \<noteq> [] \<and> writable (inspect h p)"
  shows "run_pipeline h root_path True Completed (run_pipeline h root_path resume Completed None)
           = run_pipeline h root_path resume Completed None"
proof -
  let ?ps = "find_pdf_files h root_path"
  let ?csv = "Some (Row header # map Row (map row_of (map (inspect h) ?ps)))"
  have all: "takeWhile writable (map (inspect h) ?ps) = map (inspect h) ?ps"
    using assms by (simp add: takeWhile_eq_all_conv)
  have "fst (load_processed_csv h ?csv) =
          {normcase h (file_path x) | x. x \<in> set (map (inspect h) ?ps) \<and> file_path x \<noteq> []}"
    by (rule ledger_of_rows)
  also have "\<dots> = normcase h ` set ?ps"
  proof (intro set_eqI iffI)
    fix i
    assume "i \<in> {normcase h (file_path x) | x. x \<in> set (map (inspect h) ?ps) \<and> file_path x \<noteq> []}"
    then obtain p where "p \<in> set ?ps" "i = normcase h (file_path (inspect h p))" by auto
    with assms show "i \<in> normcase h ` set ?ps" by (simp add: file_path_inspect)
  next
    fix i
    assume "i \<in> normcase h ` set ?ps"
    then obtain p where p: "p \<in> set ?ps" "i = normcase h p" by auto
    with assms have "file_path (inspect h p) = p" "p \<noteq> []" by (simp_all add: file_path_inspect)
    with p have "inspect h p \<in> set (map (inspect h) ?ps) \<and> file_path (inspect h p) \<noteq> [] \<and>
                 i = normcase h (file_path (inspect h p))" by simp
    then show "i \<in> {normcase h (file_path x) | x. x \<in> set (map (inspect h) ?ps) \<and> file_path x \<noteq> []}"
      by blast
  qed
  finally have ledger: "fst (load_processed_csv h ?csv) = normcase h ` set ?ps" .
  have none: "unprocessed h root_path ?csv True = []"
    unfolding unprocessed_def by (simp only: ledger if_True) (simp add: filter_empty_conv)
  have "run_pipeline h root_path True Completed ?csv = ?csv"
    unfolding completed_run none by (simp add: content_def head_rows_def)
  then show ?thesis unfolding first_run all .
qed

lemma first_run_identities_distinct:
  assumes "\<forall>p \<in> set (find_pdf_files h root_path). path_str h p = p"
  shows "\<exists>data. run_pipeline h root_path resume Completed None = Some (Row header # map Row data) \<and>
           distinct (map (\<lambda>r. normcase h (hd r)) data)"
proof -
  let ?ps = "find_pdf_files h root_path"
  define n where "n = length (takeWhile writable (map (inspect h) ?ps))"
  have tk: "takeWhile writable (map (inspect h) ?ps) = take n (map (inspect h) ?ps)"
    unfolding n_def by (rule takeWhile_eq_take)
  have eq: "map (\<lambda>r. normcase h (hd r)) (map row_of (map (inspect h) ?ps)) = map (normcase h) ?ps"
    using assms by (simp add: row_of_def file_path_inspect)
  have "map (\<lambda>r. normcase h (hd r)) (map row_of (take n (map (inspect h) ?ps)))
          = take n (map (\<lambda>r. normcase h (hd r)) (map row_of (map (inspect h) ?ps)))"
    by (simp only: take_map)
  also have "\<dots> = take n (map (normcase h) ?ps)"
    by (simp only: eq)
  finally have "distinct (map (\<lambda>r. normcase h (hd r))
                            (map row_of (takeWhile writable (map (inspect h) ?ps))))"
    unfolding tk using find_pdf_files_distinct [of h root_path] by simp
  then show ?thesis using first_run [of h root_path resume] by blast
qed

text \<open>
  Below the root \<^verbatim>\<open>docs\<close> the path is in that form and its row can be encoded, and the
  second run adds nothing.
\<close>

lemma resume_idempotent_below_docs:
  "run_pipeline (posix_host ''docs'' single_pdf_tree True) ''docs'' True Completed
     (run_pipeline (posix_host ''docs'' single_pdf_tree True) ''docs'' True Completed None)
   = run_pipeline (posix_host ''docs'' single_pdf_tree True) ''docs'' True Completed None"
proof -
  have f: "find_pdf_files (posix_host ''docs'' single_pdf_tree True) ''docs'' = [''docs/a.pdf'']"
    by code_simp
  have p: "path_str (posix_host ''docs'' single_pdf_tree True) ''docs/a.pdf'' = ''docs/a.pdf''"
    by code_simp
  have w: "writable (inspect (posix_host ''docs'' single_pdf_tree True) ''docs/a.pdf'')"
    by code_simp
  show ?thesis
    by (rule resume_idempotent_on_normal_paths) (simp add: f p w)
qed

section \<open>Where the pipeline departs from its specification\<close>

text \<open>
  Claim C1 (resume adds no row, no identity twice) on the root \<^verbatim>\<open>.\<close> of a POSIX host,
  with one file \<^verbatim>\<open>a.pdf\<close>. \<^verbatim>\<open>find .\<close> prints \<^verbatim>\<open>./a.pdf\<close>, and that is the path the filter
  compares with the ledger; the row written holds \<^verbatim>\<open>str(Path("./a.pdf"))\<close>, which is
  \<^verbatim>\<open>a.pdf\<close>. The first run writes the header and one row. The ledger loaded from that
  artifact is the set with \<^verbatim>\<open>a.pdf\<close> alone, so the second run, with resume and an
  unchanged tree, processes the file again and appends a second row for the same identity.
\<close>

theorem resume_reprocesses_below_dot:
  "find_pdf_files (posix_host ''.'' single_pdf_tree True) ''.'' = [''./a.pdf''] \<and>
   run_pipeline (posix_host ''.'' single_pdf_tree True) ''.'' True Completed None =
     Some [Row header, Row [''a.pdf'', ''2048'', ''True'', ''3'', ''0.0'', '''', ''S-S'']] \<and>
   fst (load_processed_csv (posix_host ''.'' single_pdf_tree True)
          (Some [Row header, Row [''a.pdf'', ''2048'', ''True'', ''3'', ''0.0'', '''', ''S-S'']]))
     = {''a.pdf''} \<and>
   run_pipeline (posix_host ''.'' single_pdf_tree True) ''.'' True Completed
       (Some [Row header, Row [''a.pdf'', ''2048'', ''True'', ''3'', ''0.0'', '''', ''S-S'']]) =
     Some [Row header, Row [''a.pdf'', ''2048'', ''True'', ''3'', ''0.0'', '''', ''S-S''],
           Row [''a.pdf'', ''2048'', ''True'', ''3'', ''0.0'', '''', ''S-S'']]"
  by code_simp

text \<open>
  Claim C6 (header once) with an interrupted run. The first run starts from no artifact
  and is killed after the writer has opened the file, put the header into the buffer and
  asked the queue for the first batch: the artifact exists and is empty. The next run finds
  the artifact, writes no header, and ends by itself: the artifact holds one row of data
  and no header row.
\<close>

theorem killed_first_run_loses_header:
  "run_pipeline (posix_host ''docs'' single_pdf_tree True) ''docs'' True (Killed 3 0) None
     = Some [] \<and>
   run_pipeline (posix_host ''docs'' single_pdf_tree True) ''docs'' True Completed (Some [])
     = Some [Row [''docs/a.pdf'', ''2048'', ''True'', ''3'', ''0.0'', '''', ''S-S'']] \<and>
   Row header \<notin> set (content (run_pipeline (posix_host ''docs'' single_pdf_tree True) ''docs''
                                 True Completed (Some [])))"
  by code_simp

text \<open>
  Claim C7 (the two ways of discovery agree) on two trees. Below \<^verbatim>\<open>docs\<close>, a directory
  named \<^verbatim>\<open>scans.pdf\<close> holds the file \<^verbatim>\<open>p1.pdf\<close>: the \<^verbatim>\<open>find\<close> command, asked for regular
  files, yields the file alone, the fallback yields the directory as well. Below the root
  \<^verbatim>\<open>.\<close>, with the one file \<^verbatim>\<open>a.pdf\<close>: \<^verbatim>\<open>find\<close> yields \<^verbatim>\<open>./a.pdf\<close>, the fallback
  \<^verbatim>\<open>a.pdf\<close>. On both trees the two sets of normalised identities differ.
\<close>

theorem find_and_rglob_identities_differ:
  "identities (posix_host ''docs'' scans_tree True) ''docs'' = {''docs/scans.pdf/p1.pdf''} \<and>
   identities (posix_host ''docs'' scans_tree False) ''docs''
     = {''docs/scans.pdf'', ''docs/scans.pdf/p1.pdf''} \<and>
   identities (posix_host ''.'' single_pdf_tree True) ''.'' = {''./a.pdf''} \<and>
   identities (posix_host ''.'' single_pdf_tree False) ''.'' = {''a.pdf''} \<and>
   identities (posix_host ''docs'' scans_tree True) ''docs''
     \<noteq> identities (posix_host ''docs'' scans_tree False) ''docs'' \<and>
   identities (posix_host ''.'' single_pdf_tree True) ''.''
     \<noteq> identities (posix_host ''.'' single_pdf_tree False) ''.''"
  by code_simp

end
